theory Spec2Isabelle
  imports Main
begin

section \<open>compare\_mq\_ops.py: MQ encoder/decoder trace comparison\<close>

text \<open>
  The script reads the captured output of a test run line by line, keeps the lines tagged
  \<^verbatim>\<open>[MQE #n BEFORE|AFTER]\<close> (encoder) and \<^verbatim>\<open>[MQC #n BEFORE|AFTER]\<close> (decoder), and then
  walks the two lists in pairs, printing the four payloads of every operation and stopping
  at the first operation whose \<^verbatim>\<open>newState=.. newMPS=..\<close> fields differ.

  Text is modelled as \<^typ>\<open>string\<close>, that is as lists of characters with code points
  below 256. In that range the decimal digits of the pattern \<^verbatim>\<open>\d\<close> are exactly
  \<^verbatim>\<open>0\<close> to \<^verbatim>\<open>9\<close>, and the white space removed by \<^verbatim>\<open>str.strip()\<close> is the set
  listed in \<open>py_isspace\<close>. Python integers are unbounded and are modelled as \<^typ>\<open>int\<close>;
  the interpreter's configurable limit on the number of digits \<^verbatim>\<open>int()\<close> accepts is
  not part of the script and is not modelled.
\<close>

subsection \<open>Characters and strings of the Python runtime\<close>

text \<open>The character class \<^verbatim>\<open>\d\<close>.\<close>

definition re_digit :: "char \<Rightarrow> bool" where
  "re_digit c \<longleftrightarrow> (48::nat) \<le> of_char c \<and> (of_char c :: nat) \<le> 57"

text \<open>The character class \<^verbatim>\<open>.\<close> (no DOTALL flag): every character but the line feed.\<close>

definition re_dot :: "char \<Rightarrow> bool" where
  "re_dot c \<longleftrightarrow> c \<noteq> CHR 0x0A"

text \<open>\<^verbatim>\<open>str.isspace()\<close> of a single character, which is what \<^verbatim>\<open>str.strip()\<close> removes.\<close>

definition py_isspace :: "char \<Rightarrow> bool" where
  "py_isspace c \<longleftrightarrow>
     (of_char c :: nat) \<in> {9, 10, 11, 12, 13, 28, 29, 30, 31, 32, 133, 160}"

text \<open>\<^verbatim>\<open>s.strip()\<close>: white space removed at both ends.\<close>

definition py_strip :: "string \<Rightarrow> string" where
  "py_strip s = rev (dropWhile py_isspace (rev (dropWhile py_isspace s)))"

text \<open>\<^verbatim>\<open>int(s)\<close> on a string of decimal digits.\<close>

definition digit_value :: "char \<Rightarrow> int" where
  "digit_value c = int (of_char c) - 48"

definition py_int :: "string \<Rightarrow> int" where
  "py_int s = foldl (\<lambda>acc c. 10 * acc + digit_value c) 0 s"

text \<open>A literal piece of a pattern: the text after it, when the subject starts with it.\<close>

fun literal :: "string \<Rightarrow> string \<Rightarrow> string option" where
  "literal [] s = Some s"
| "literal (p # ps) [] = None"
| "literal (p # ps) (c # cs) = (if p = c then literal ps cs else None)"

subsection \<open>The two tag patterns\<close>

text \<open>
  \<^verbatim>\<open>re.match(r'\[MQE #(\d+) (BEFORE|AFTER)\](.+)', line)\<close> and its decoder twin differ
  only in the opening literal, which is the first argument here. The match is anchored at
  the start of the line. Both \<^verbatim>\<open>\d+\<close> and \<^verbatim>\<open>.+\<close> are greedy; what follows \<^verbatim>\<open>\d+\<close> is a
  space, which is no digit, so giving back digits can never help, and nothing follows
  \<^verbatim>\<open>.+\<close>: each takes the longest run, which must not be empty. The result holds the three
  groups.
\<close>

definition tag_match :: "string \<Rightarrow> string \<Rightarrow> (string \<times> string \<times> string) option" where
  "tag_match opening line =
     (case literal opening line of
        None \<Rightarrow> None
      | Some r1 \<Rightarrow>
          let g1 = takeWhile re_digit r1; r2 = dropWhile re_digit r1 in
          if g1 = [] then None
          else
            (case literal '' '' r2 of
               None \<Rightarrow> None
             | Some r3 \<Rightarrow>
                 (case (case literal ''BEFORE'' r3 of
                          Some r4 \<Rightarrow> Some (''BEFORE'', r4)
                        | None \<Rightarrow>
                            (case literal ''AFTER'' r3 of
                               Some r4 \<Rightarrow> Some (''AFTER'', r4)
                             | None \<Rightarrow> None)) of
                    None \<Rightarrow> None
                  | Some (g2, r4) \<Rightarrow>
                      (case literal '']'' r4 of
                         None \<Rightarrow> None
                       | Some r5 \<Rightarrow>
                           let g3 = takeWhile re_dot r5 in
                           if g3 = [] then None else Some (g1, g2, g3)))))"

definition enc_match :: "string \<Rightarrow> (string \<times> string \<times> string) option" where
  "enc_match line = tag_match ''[MQE #'' line"

definition dec_match :: "string \<Rightarrow> (string \<times> string \<times> string) option" where
  "dec_match line = tag_match ''[MQC #'' line"

subsection \<open>parse\_mq\_operations\<close>

text \<open>An entry of \<^verbatim>\<open>encoder_ops\<close> or \<^verbatim>\<open>decoder_ops\<close>: the tuple \<^verbatim>\<open>(op_num, phase, details)\<close>.\<close>

type_synonym traceline = "int \<times> string \<times> string"

fun op_num :: "traceline \<Rightarrow> int" where
  "op_num (n, p, d) = n"

fun phase :: "traceline \<Rightarrow> string" where
  "phase (n, p, d) = p"

fun details :: "traceline \<Rightarrow> string" where
  "details (n, p, d) = d"

text \<open>The tuple built from the groups of a match.\<close>

fun record_of :: "string \<times> string \<times> string \<Rightarrow> traceline" where
  "record_of (g1, g2, g3) = (py_int g1, g2, py_strip g3)"

text \<open>
  The body of \<^verbatim>\<open>for line in f\<close>: both patterns are tried on every line, and a match appends
  to the list of its side.
\<close>

definition parse_line ::
  "string \<Rightarrow> traceline list \<times> traceline list \<Rightarrow> traceline list \<times> traceline list" where
  "parse_line line ops =
     (let encoder_ops = fst ops; decoder_ops = snd ops;
          encoder_ops' = (case enc_match line of
                            Some g \<Rightarrow> encoder_ops @ [record_of g]
                          | None \<Rightarrow> encoder_ops);
          decoder_ops' = (case dec_match line of
                            Some g \<Rightarrow> decoder_ops @ [record_of g]
                          | None \<Rightarrow> decoder_ops)
      in (encoder_ops', decoder_ops'))"

fun parse_lines ::
  "string list \<Rightarrow> traceline list \<times> traceline list \<Rightarrow> traceline list \<times> traceline list" where
  "parse_lines [] ops = ops"
| "parse_lines (line # rest) ops = parse_lines rest (parse_line line ops)"

text \<open>
  The argument is the sequence of lines the file iterator yields (each with its line feed,
  when it has one).
\<close>

definition parse_mq_operations :: "string list \<Rightarrow> traceline list \<times> traceline list" where
  "parse_mq_operations lines = parse_lines lines ([], [])"

subsection \<open>The state pattern\<close>

text \<open>
  \<^verbatim>\<open>newState=(\d+) newMPS=(\d+)\<close> tried at the start of a text. The first \<^verbatim>\<open>\d+\<close> is
  followed by a space and the second by nothing, so each takes the longest run of digits.
\<close>

definition state_here :: "string \<Rightarrow> (string \<times> string) option" where
  "state_here s =
     (case literal ''newState='' s of
        None \<Rightarrow> None
      | Some r1 \<Rightarrow>
          let g1 = takeWhile re_digit r1; r2 = dropWhile re_digit r1 in
          if g1 = [] then None
          else
            (case literal '' newMPS='' r2 of
               None \<Rightarrow> None
             | Some r3 \<Rightarrow>
                 let g2 = takeWhile re_digit r3 in
                 if g2 = [] then None else Some (g1, g2)))"

text \<open>
  \<^verbatim>\<open>re.search\<close>: the pattern is tried at every position from the left, and the first
  position where it matches wins. The result is the pair \<^verbatim>\<open>(group(1), group(2))\<close>, two
  strings of digits.
\<close>

fun state_search :: "string \<Rightarrow> (string \<times> string) option" where
  "state_search [] = state_here []"
| "state_search (c # cs) =
     (case state_here (c # cs) of
        Some g \<Rightarrow> Some g
      | None \<Rightarrow> state_search cs)"

subsection \<open>The comparison loop of main\<close>

text \<open>
  What the script prints, one constructor for each \<^verbatim>\<open>print\<close> call: the two counts, the
  empty line, the header \<^verbatim>\<open>=== Operation #k ===\<close>, the four payload lines, the mismatch
  line with both state tuples and the match line with the common one.
\<close>

datatype out_line =
    EncoderOperations nat
  | DecoderOperations nat
  | Blank
  | OperationHeader nat
  | EncBefore string
  | EncAfter string
  | DecBefore string
  | DecAfter string
  | StateMismatch "string \<times> string" "string \<times> string"
  | StatesMatch "string \<times> string"

datatype py_error = IndexError

text \<open>\<^verbatim>\<open>xs[k]\<close> for a non-negative \<^verbatim>\<open>k\<close>: out of range it raises.\<close>

definition py_index :: "'a list \<Rightarrow> nat \<Rightarrow> py_error + 'a" where
  "py_index xs k = (if k < length xs then Inr (xs ! k) else Inl IndexError)"

text \<open>
  One pass through the body of \<^verbatim>\<open>for i in range(max_ops)\<close>: the lines it prints, and
  whether it leaves the loop by \<^verbatim>\<open>break\<close>. The four subscripts come first, so an
  \<^verbatim>\<open>IndexError\<close> would be raised before anything is printed.
\<close>

definition iteration ::
  "traceline list \<Rightarrow> traceline list \<Rightarrow> nat \<Rightarrow> py_error + (out_line list \<times> bool)" where
  "iteration encoder_ops decoder_ops i =
     (case py_index encoder_ops (i * 2) of
        Inl e \<Rightarrow> Inl e
      | Inr enc_before \<Rightarrow>
     (case py_index encoder_ops (i * 2 + 1) of
        Inl e \<Rightarrow> Inl e
      | Inr enc_after \<Rightarrow>
     (case py_index decoder_ops (i * 2) of
        Inl e \<Rightarrow> Inl e
      | Inr dec_before \<Rightarrow>
     (case py_index decoder_ops (i * 2 + 1) of
        Inl e \<Rightarrow> Inl e
      | Inr dec_after \<Rightarrow>
          let shown = [OperationHeader (i + 1),
                       EncBefore (details enc_before), EncAfter (details enc_after),
                       DecBefore (details dec_before), DecAfter (details dec_after)];
              enc_state_match = state_search (details enc_after);
              dec_state_match = state_search (details dec_after)
          in
            (case enc_state_match of
               None \<Rightarrow> Inr (shown @ [Blank], False)
             | Some enc_state \<Rightarrow>
                 (case dec_state_match of
                    None \<Rightarrow> Inr (shown @ [Blank], False)
                  | Some dec_state \<Rightarrow>
                      if enc_state \<noteq> dec_state
                      then Inr (shown @ [StateMismatch enc_state dec_state, Blank], True)
                      else Inr (shown @ [StatesMatch enc_state, Blank], False)))))))"

text \<open>How the loop ends: it runs out of operations, it breaks, or an exception escapes.\<close>

datatype terminal = Exhausted | Diverged | Raised py_error

text \<open>
  The loop over the values of \<^verbatim>\<open>range(max_ops)\<close>. The result keeps the lines of every pass
  together, as one block for each operation examined, and tells how the loop ended.
\<close>

fun for_range ::
  "traceline list \<Rightarrow> traceline list \<Rightarrow> nat list \<Rightarrow> out_line list list \<times> terminal" where
  "for_range encoder_ops decoder_ops [] = ([], Exhausted)"
| "for_range encoder_ops decoder_ops (i # rest) =
     (case iteration encoder_ops decoder_ops i of
        Inl e \<Rightarrow> ([], Raised e)
      | Inr (printed, brk) \<Rightarrow>
          if brk then ([printed], Diverged)
          else (case for_range encoder_ops decoder_ops rest of
                  (blocks, t) \<Rightarrow> (printed # blocks, t)))"

definition max_ops :: "traceline list \<Rightarrow> traceline list \<Rightarrow> nat" where
  "max_ops encoder_ops decoder_ops =
     min 50 (min (length encoder_ops div 2) (length decoder_ops div 2))"

text \<open>
  The part of \<^verbatim>\<open>main\<close> after parsing: the blocks of the operations examined and the way
  the loop ended.
\<close>

definition compare ::
  "traceline list \<Rightarrow> traceline list \<Rightarrow> out_line list list \<times> terminal" where
  "compare encoder_ops decoder_ops =
     for_range encoder_ops decoder_ops [0..<max_ops encoder_ops decoder_ops]"

text \<open>Everything \<^verbatim>\<open>main\<close> prints: the two counts, an empty line, then the blocks.\<close>

definition printed_lines :: "traceline list \<Rightarrow> traceline list \<Rightarrow> out_line list" where
  "printed_lines encoder_ops decoder_ops =
     [EncoderOperations (length encoder_ops div 2),
      DecoderOperations (length decoder_ops div 2),
      Blank] @ concat (fst (compare encoder_ops decoder_ops))"

subsection \<open>Names for what one operation contributes\<close>

text \<open>
  The state tuple found in the AFTER entry of operation \<open>i\<close> of a list, the five lines
  every examined operation prints, and the test that makes the loop stop: both tuples are
  there and differ. These names are used for operations of the window only, where the
  entries \<open>2 * i\<close> and \<open>2 * i + 1\<close> exist in both lists (lemma \<open>in_window\<close> below); the
  loop itself reads the lists through \<open>py_index\<close>.
\<close>

definition snapshot :: "traceline list \<Rightarrow> nat \<Rightarrow> (string \<times> string) option" where
  "snapshot ops i = state_search (details (ops ! (i * 2 + 1)))"

definition shown :: "traceline list \<Rightarrow> traceline list \<Rightarrow> nat \<Rightarrow> out_line list" where
  "shown encoder_ops decoder_ops i =
     [OperationHeader (i + 1),
      EncBefore (details (encoder_ops ! (i * 2))),
      EncAfter (details (encoder_ops ! (i * 2 + 1))),
      DecBefore (details (decoder_ops ! (i * 2))),
      DecAfter (details (decoder_ops ! (i * 2 + 1)))]"

fun differ :: "(string \<times> string) option \<Rightarrow> (string \<times> string) option \<Rightarrow> bool" where
  "differ (Some a) (Some b) = (a \<noteq> b)"
| "differ _ _ = False"

definition mismatch_at :: "traceline list \<Rightarrow> traceline list \<Rightarrow> nat \<Rightarrow> bool" where
  "mismatch_at encoder_ops decoder_ops i =
     differ (snapshot encoder_ops i) (snapshot decoder_ops i)"

text \<open>The lines that follow the five payload lines, by the two search results.\<close>

fun verdict :: "(string \<times> string) option \<Rightarrow> (string \<times> string) option \<Rightarrow> out_line list" where
  "verdict (Some a) (Some b) =
     (if a \<noteq> b then [StateMismatch a b, Blank] else [StatesMatch a, Blank])"
| "verdict _ _ = [Blank]"


text \<open>All the lines of operation \<open>i\<close>.\<close>

definition block :: "traceline list \<Rightarrow> traceline list \<Rightarrow> nat \<Rightarrow> out_line list" where
  "block encoder_ops decoder_ops i =
     shown encoder_ops decoder_ops i
       @ verdict (snapshot encoder_ops i) (snapshot decoder_ops i)"

text \<open>The operation numbers of the headers among printed lines.\<close>

fun headers :: "out_line list \<Rightarrow> nat list" where
  "headers [] = []"
| "headers (OperationHeader k # ls) = k # headers ls"
| "headers (l # ls) = headers ls"

section \<open>The patterns, characterised\<close>

lemma literal_iff: "literal p s = Some r \<longleftrightarrow> s = p @ r"
  by (induction p s rule: literal.induct) auto

lemma literal_append: "literal p (p @ r) = Some r"
  by (simp add: literal_iff)

lemma space_not_digit: "\<not> re_digit CHR '' ''"
  by (simp add: re_digit_def)



text \<open>Conversely, every matching line has that shape.\<close>

lemma tag_match_elim:
  assumes "tag_match opening line = Some (g1, g2, g3)"
  shows "\<exists>tail. line = opening @ g1 @ '' '' @ g2 @ '']'' @ g3 @ tail
           \<and> g1 \<noteq> [] \<and> (\<forall>c\<in>set g1. re_digit c)
           \<and> (g2 = ''BEFORE'' \<or> g2 = ''AFTER'')
           \<and> g3 \<noteq> [] \<and> (\<forall>c\<in>set g3. re_dot c)
           \<and> (tail = [] \<or> \<not> re_dot (hd tail))"
proof -
  from assms obtain r1 where r1: "line = opening @ r1"
    by (auto simp: tag_match_def literal_iff split: option.splits)
  define r2 where "r2 = dropWhile re_digit r1"
  from assms r1 have g1: "g1 = takeWhile re_digit r1" "g1 \<noteq> []"
    by (auto simp: tag_match_def literal_iff Let_def split: option.splits if_splits)
  from assms r1 obtain r3 where r3: "r2 = '' '' @ r3"
    by (auto simp: tag_match_def literal_iff Let_def r2_def split: option.splits if_splits)
  from assms r1 r3 obtain r4 where r4: "r3 = g2 @ r4" "g2 = ''BEFORE'' \<or> g2 = ''AFTER''"
    by (auto simp: tag_match_def literal_iff Let_def r2_def split: option.splits if_splits)
  from assms r1 r3 r4 obtain r5 where r5: "r4 = '']'' @ r5" "g3 = takeWhile re_dot r5" "g3 \<noteq> []"
    by (auto simp: tag_match_def literal_iff Let_def r2_def split: option.splits if_splits)
  have "r1 = g1 @ r2" by (simp add: g1 r2_def)
  moreover have "r5 = g3 @ dropWhile re_dot r5" by (simp add: r5)
  moreover have "dropWhile re_dot r5 = [] \<or> \<not> re_dot (hd (dropWhile re_dot r5))"
    using hd_dropWhile[of re_dot r5] by blast
  moreover have "\<forall>c\<in>set g1. re_digit c" using g1 by (auto dest: set_takeWhileD)
  moreover have "\<forall>c\<in>set g3. re_dot c" using r5 by (auto dest: set_takeWhileD)
  ultimately show ?thesis using r1 r3 r4 r5 g1
    by (intro exI[of _ "dropWhile re_dot r5"]) auto
qed

text \<open>A tag with nothing after the bracket on its line does not match.\<close>

lemma tag_match_bare:
  assumes "\<forall>c\<in>set ds. re_digit c" and "ph = ''BEFORE'' \<or> ph = ''AFTER''"
    and "tail = [] \<or> \<not> re_dot (hd tail)"
  shows "tag_match opening (opening @ ds @ '' '' @ ph @ '']'' @ tail) = None"
proof -
  let ?r2 = "'' '' @ ph @ '']'' @ tail"
  have t1: "takeWhile re_digit (ds @ ?r2) = ds" and d1: "dropWhile re_digit (ds @ ?r2) = ?r2"
    using assms(1) by (simp_all add: space_not_digit)
  have t3: "takeWhile re_dot tail = []"
    using assms(3) by (cases tail) auto
  from assms(2) show ?thesis
  proof
    assume "ph = ''BEFORE''"
    then show ?thesis
      using t1 d1 t3 by (simp add: tag_match_def literal_append)
  next
    assume "ph = ''AFTER''"
    then show ?thesis
      using t1 d1 t3 by (simp add: tag_match_def literal_append)
  qed
qed

lemma other_opening:
  "tag_match ''[MQC #'' (''[MQE #'' @ r) = None" "tag_match ''[MQE #'' (''[MQC #'' @ r) = None"
  by (simp_all add: tag_match_def)

section \<open>Digit strings and their values\<close>













section \<open>Stripping\<close>

lemma py_strip_empty_iff: "py_strip s = [] \<longleftrightarrow> (\<forall>c\<in>set s. py_isspace c)"
proof -
  have "py_strip s = [] \<longleftrightarrow> (\<forall>c\<in>set (dropWhile py_isspace s). py_isspace c)"
    by (auto simp: py_strip_def dest: set_dropWhileD)
  also have "\<dots> \<longleftrightarrow> (\<forall>c\<in>set s. py_isspace c)"
  proof
    assume a: "\<forall>c\<in>set (dropWhile py_isspace s). py_isspace c"
    have "dropWhile py_isspace s = []"
    proof (rule ccontr)
      assume n: "dropWhile py_isspace s \<noteq> []"
      then have "\<not> py_isspace (hd (dropWhile py_isspace s))"
        by (rule hd_dropWhile)
      moreover have "hd (dropWhile py_isspace s) \<in> set (dropWhile py_isspace s)"
        using n by (rule hd_in_set)
      ultimately show False using a by blast
    qed
    then show "\<forall>c\<in>set s. py_isspace c" by simp
  next
    assume "\<forall>c\<in>set s. py_isspace c"
    then show "\<forall>c\<in>set (dropWhile py_isspace s). py_isspace c"
      by (auto dest: set_dropWhileD)
  qed
  finally show ?thesis .
qed



section \<open>The parser as a filter\<close>

lemma parse_lines_append:
  "parse_lines (xs @ ys) ops = parse_lines ys (parse_lines xs ops)"
  by (induction xs arbitrary: ops) simp_all

lemma parse_lines_fst:
  "fst (parse_lines ls ops) = fst ops @ map record_of (List.map_filter enc_match ls)"
  by (induction ls arbitrary: ops)
     (simp_all add: parse_line_def Let_def split: option.splits)

lemma parse_lines_snd:
  "snd (parse_lines ls ops) = snd ops @ map record_of (List.map_filter dec_match ls)"
  by (induction ls arbitrary: ops)
     (simp_all add: parse_line_def Let_def split: option.splits)

lemma parse_fst: "fst (parse_mq_operations ls) = map record_of (List.map_filter enc_match ls)"
  by (simp add: parse_mq_operations_def parse_lines_fst)

lemma parse_snd: "snd (parse_mq_operations ls) = map record_of (List.map_filter dec_match ls)"
  by (simp add: parse_mq_operations_def parse_lines_snd)

lemma map_filter_append: "List.map_filter f (xs @ ys) = List.map_filter f xs @ List.map_filter f ys"
  by (simp add: List.map_filter_def)

lemma set_map_filter: "set (List.map_filter f xs) = {y. \<exists>x\<in>set xs. f x = Some y}"
  by (induction xs) (auto split: option.splits)

section \<open>The comparison loop, characterised\<close>

text \<open>Inside the window all four subscripts are in range, so no pass raises.\<close>

lemma in_window:
  assumes "i < max_ops e d"
  shows "i * 2 + 1 < length e" and "i * 2 + 1 < length d" and "i < 50"
  using assms by (simp_all add: max_ops_def) linarith+

lemma iteration_in_range:
  assumes "i * 2 + 1 < length e" and "i * 2 + 1 < length d"
  shows "iteration e d i = Inr (block e d i, mismatch_at e d i)"
  using assms
  by (simp add: iteration_def py_index_def block_def shown_def snapshot_def mismatch_at_def
      Let_def split: option.splits)

text \<open>The loop runs through passes that do not break and stops at the first that does.\<close>

lemma for_range_cong:
  "(\<And>i. i \<in> set ns \<Longrightarrow> iteration e d i = iteration e' d' i)
     \<Longrightarrow> for_range e d ns = for_range e' d' ns"
  by (induction ns) (simp_all split: sum.splits prod.splits)

lemma for_range_run:
  assumes "\<forall>i\<in>set ns. iteration e d i = Inr (block e d i, False)"
  shows "for_range e d ns = (map (block e d) ns, Exhausted)"
  using assms by (induction ns) simp_all

lemma for_range_stop:
  assumes "\<forall>i\<in>set ns. iteration e d i = Inr (block e d i, False)"
    and "iteration e d k = Inr (block e d k, True)"
  shows "for_range e d (ns @ k # rest) = (map (block e d) ns @ [block e d k], Diverged)"
  using assms by (induction ns) simp_all

lemma for_range_length: "length (fst (for_range e d ns)) \<le> length ns"
  by (induction ns) (auto split: sum.splits prod.splits)

lemma iteration_in_window:
  assumes "i < max_ops e d"
  shows "iteration e d i = Inr (block e d i, mismatch_at e d i)"
  using in_window(1,2)[OF assms] by (rule iteration_in_range)

lemma compare_exhausted:
  assumes "\<forall>i<max_ops e d. \<not> mismatch_at e d i"
  shows "compare e d = (map (block e d) [0..<max_ops e d], Exhausted)"
  unfolding compare_def
  by (rule for_range_run) (use assms in \<open>simp add: iteration_in_window\<close>)

lemma compare_diverged:
  assumes "k < max_ops e d" and "mismatch_at e d k" and "\<forall>j<k. \<not> mismatch_at e d j"
  shows "compare e d = (map (block e d) [0..<Suc k], Diverged)"
proof -
  have s: "[0..<max_ops e d] = [0..<k] @ k # [Suc k..<max_ops e d]"
  proof -
    have "[0..<k + (max_ops e d - k)] = [0..<k] @ [k..<k + (max_ops e d - k)]"
      by (rule upt_add_eq_append) simp
    moreover have "[k..<max_ops e d] = k # [Suc k..<max_ops e d]"
      using assms(1) by (rule upt_conv_Cons)
    ultimately show ?thesis using assms(1) by simp
  qed
  have "for_range e d ([0..<k] @ k # [Suc k..<max_ops e d])
          = (map (block e d) [0..<k] @ [block e d k], Diverged)"
  proof (rule for_range_stop)
    show "\<forall>i\<in>set [0..<k]. iteration e d i = Inr (block e d i, False)"
      using assms by (simp add: iteration_in_window)
    show "iteration e d k = Inr (block e d k, True)"
      using assms by (simp add: iteration_in_window)
  qed
  then show ?thesis unfolding compare_def s by simp
qed

lemma first_mismatch:
  assumes "\<exists>i<(n::nat). P i"
  shows "\<exists>k<n. P k \<and> (\<forall>j<k. \<not> P j)"
proof -
  from assms obtain i where "i < n \<and> P i" by blast
  then obtain k where "k < n \<and> P k" and "\<forall>j<k. \<not> (j < n \<and> P j)"
    using exists_least_iff[of "\<lambda>i. i < n \<and> P i"] by blast
  then show ?thesis by (metis less_trans)
qed

text \<open>The two ways a comparison can go.\<close>

lemma compare_cases:
  obtains (exhausted) "\<forall>i<max_ops e d. \<not> mismatch_at e d i"
      "compare e d = (map (block e d) [0..<max_ops e d], Exhausted)"
  | (diverged) k where "k < max_ops e d" "mismatch_at e d k" "\<forall>j<k. \<not> mismatch_at e d j"
      "compare e d = (map (block e d) [0..<Suc k], Diverged)"
proof (cases "\<exists>i<max_ops e d. mismatch_at e d i")
  case True
  from first_mismatch[OF this] obtain k where
    "k < max_ops e d" "mismatch_at e d k" "\<forall>j<k. \<not> mismatch_at e d j" by blast
  then show ?thesis using diverged compare_diverged by blast
next
  case False
  then show ?thesis using exhausted compare_exhausted by blast
qed

text \<open>An operation with no mismatch before it is examined, and its block is its own.\<close>

lemma compare_reached:
  assumes "i < max_ops e d" and "\<forall>j<i. \<not> mismatch_at e d j"
  shows "i < length (fst (compare e d))" and "fst (compare e d) ! i = block e d i"
proof -
  have "i < length (fst (compare e d)) \<and> fst (compare e d) ! i = block e d i"
  proof (cases rule: compare_cases[of e d])
    case exhausted
    then show ?thesis using assms(1) by simp
  next
    case (diverged k)
    have "i \<le> k" using assms(2) diverged(2) by (meson not_le)
    then have "i < Suc k" by simp
    then show ?thesis unfolding diverged(4) by (simp del: upt_Suc)
  qed
  then show "i < length (fst (compare e d))" and "fst (compare e d) ! i = block e d i"
    by simp_all
qed

lemma headers_append: "headers (xs @ ys) = headers xs @ headers ys"
  by (induction xs rule: headers.induct) simp_all

lemma headers_verdict: "headers (verdict x y) = []"
  by (cases "(x, y)" rule: verdict.cases) simp_all

lemma headers_block: "headers (block e d i) = [Suc i]"
  by (simp add: block_def shown_def headers_append headers_verdict)

lemma headers_blocks: "headers (concat (map (block e d) ns)) = map Suc ns"
  by (induction ns) (simp_all add: headers_append headers_block)

lemma headers_printed: "headers (printed_lines e d) = headers (concat (fst (compare e d)))"
  by (simp add: printed_lines_def)

text \<open>Streams built operation by operation, two entries each.\<close>

lemma nth_concat_pairs:
  "i < length ks \<Longrightarrow> concat (map (\<lambda>k. [f k, g k]) ks) ! (i * 2 + 1) = g (ks ! i)"
proof (induction ks arbitrary: i)
  case Nil
  then show ?case by simp
next
  case (Cons k ks)
  then show ?case by (cases i) simp_all
qed

lemma length_concat_pairs: "length (concat (map (\<lambda>k. [f k, g k]) ks)) = 2 * length ks"
  by (induction ks) simp_all

lemma details_snd: "details t = snd (snd t)"
  by (cases t) simp

lemma printed_head:
  "take 3 (printed_lines e d)
     = [EncoderOperations (length e div 2), DecoderOperations (length d div 2), Blank]"
  by (simp add: printed_lines_def)

lemma compare_length_le: "length (fst (compare e d)) \<le> max_ops e d"
  using for_range_length[of e d "[0..<max_ops e d]"] by (simp add: compare_def)

lemma map_Suc_upt0: "map Suc [0..<n] = [1..<n + 1]"
  using map_Suc_upt[of 0 n] by simp



text \<open>A pass reads the lengths of the lists and the payloads of four entries only.\<close>

lemma iteration_out_of_range:
  assumes "\<not> (i * 2 + 1 < length e \<and> i * 2 + 1 < length d)"
  shows "iteration e d i = Inl IndexError"
proof (cases "i * 2 + 1 < length e")
  case True
  then have "i * 2 < length e" by simp
  with True assms show ?thesis
    by (cases "i * 2 < length d") (simp_all add: iteration_def py_index_def)
next
  case False
  then show ?thesis
    by (cases "i * 2 < length e") (simp_all add: iteration_def py_index_def)
qed

lemma iteration_details:
  assumes "map snd e = map snd e'" and "map snd d = map snd d'"
  shows "iteration e d i = iteration e' d' i"
proof -
  have le: "length e = length e'" and ld: "length d = length d'"
    using assms by (auto dest: map_eq_imp_length_eq)
  have de: "details (e ! k) = details (e' ! k)" if "k < length e" for k
  proof -
    have "snd (e ! k) = map snd e ! k" using that by simp
    also have "\<dots> = snd (e' ! k)" using that le assms(1) by simp
    finally show ?thesis by (simp add: details_snd)
  qed
  have dd: "details (d ! k) = details (d' ! k)" if "k < length d" for k
  proof -
    have "snd (d ! k) = map snd d ! k" using that by simp
    also have "\<dots> = snd (d' ! k)" using that ld assms(2) by simp
    finally show ?thesis by (simp add: details_snd)
  qed
  show ?thesis
  proof (cases "i * 2 + 1 < length e \<and> i * 2 + 1 < length d")
    case True
    then have r: "i * 2 < length e" "i * 2 + 1 < length e" "i * 2 < length d" "i * 2 + 1 < length d"
      by simp_all
    have "block e d i = block e' d' i"
      unfolding block_def shown_def snapshot_def
      by (simp only: de[OF r(1)] de[OF r(2)] dd[OF r(3)] dd[OF r(4)])
    moreover have "mismatch_at e d i = mismatch_at e' d' i"
      unfolding mismatch_at_def snapshot_def
      by (simp only: de[OF r(2)] dd[OF r(4)])
    moreover have "iteration e d i = Inr (block e d i, mismatch_at e d i)"
      using r(2,4) by (rule iteration_in_range)
    moreover have "iteration e' d' i = Inr (block e' d' i, mismatch_at e' d' i)"
      using r(2,4) unfolding le ld by (rule iteration_in_range)
    ultimately show ?thesis by simp
  next
    case False
    then have "iteration e d i = Inl IndexError"
      by (rule iteration_out_of_range)
    moreover from False have "iteration e' d' i = Inl IndexError"
      unfolding le ld by (rule iteration_out_of_range)
    ultimately show ?thesis by simp
  qed
qed

section \<open>Properties of the parser\<close>

text \<open>
  C10. Parsing an empty sequence of lines returns two empty sequences.
\<close>

theorem parse_empty: "parse_mq_operations [] = ([], [])"
  by (simp add: parse_mq_operations_def)



text \<open>
  C7. The parser keeps the order of the input within each stream: when line \<open>a\<close> comes
  before line \<open>b\<close> and both match the same grammar, the record of \<open>a\<close> stands before the
  record of \<open>b\<close> in that grammar's output, with the records of the lines before, between
  and after them around the two.
\<close>

theorem order_preserved:
  "(enc_match a = Some ga \<and> enc_match b = Some gb \<longrightarrow>
      fst (parse_mq_operations (xs @ a # ys @ b # zs))
        = fst (parse_mq_operations xs) @ record_of ga # fst (parse_mq_operations ys)
            @ record_of gb # fst (parse_mq_operations zs))
   \<and> (dec_match a = Some ga \<and> dec_match b = Some gb \<longrightarrow>
      snd (parse_mq_operations (xs @ a # ys @ b # zs))
        = snd (parse_mq_operations xs) @ record_of ga # snd (parse_mq_operations ys)
            @ record_of gb # snd (parse_mq_operations zs))"
  by (simp add: parse_fst parse_snd map_filter_append)

theorem order_preserved_witness:
  "fst (parse_mq_operations
          [''noise'', ''[MQE #1 BEFORE] p'', ''[MQC #1 BEFORE] q'', ''[MQE #1 AFTER] r''])
     = [(1, ''BEFORE'', ''p''), (1, ''AFTER'', ''r'')]
   \<and> snd (parse_mq_operations
          [''[MQC #4 AFTER] u'', ''[MQE #1 BEFORE] p'', ''[MQC #5 BEFORE] v''])
     = [(4, ''AFTER'', ''u''), (5, ''BEFORE'', ''v'')]"
proof -
  have e1: "enc_match ''[MQE #1 BEFORE] p'' = Some (''1'', ''BEFORE'', '' p'')"
    by code_simp
  have e2: "enc_match ''[MQE #1 AFTER] r'' = Some (''1'', ''AFTER'', '' r'')"
    by code_simp
  have d1: "dec_match ''[MQC #4 AFTER] u'' = Some (''4'', ''AFTER'', '' u'')"
    by code_simp
  have d2: "dec_match ''[MQC #5 BEFORE] v'' = Some (''5'', ''BEFORE'', '' v'')"
    by code_simp
  have x1: "fst (parse_mq_operations [''noise'']) = []"
    by code_simp
  have x2: "fst (parse_mq_operations [''[MQC #1 BEFORE] q'']) = []"
    by code_simp
  have x3: "snd (parse_mq_operations [''[MQE #1 BEFORE] p'']) = []"
    by code_simp
  have x0: "parse_mq_operations [] = ([], [])"
    by (simp add: parse_mq_operations_def)
  have r1: "record_of (''1'', ''BEFORE'', '' p'') = (1, ''BEFORE'', ''p'')"
    by code_simp
  have r2: "record_of (''1'', ''AFTER'', '' r'') = (1, ''AFTER'', ''r'')"
    by code_simp
  have r3: "record_of (''4'', ''AFTER'', '' u'') = (4, ''AFTER'', ''u'')"
    by code_simp
  have r4: "record_of (''5'', ''BEFORE'', '' v'') = (5, ''BEFORE'', ''v'')"
    by code_simp
  have a: "fst (parse_mq_operations
          ([''noise''] @ ''[MQE #1 BEFORE] p'' # [''[MQC #1 BEFORE] q''] @ ''[MQE #1 AFTER] r'' # []))
     = [(1, ''BEFORE'', ''p''), (1, ''AFTER'', ''r'')]"
    using order_preserved[of "''[MQE #1 BEFORE] p''" "(''1'', ''BEFORE'', '' p'')"
        "''[MQE #1 AFTER] r''" "(''1'', ''AFTER'', '' r'')"
        "[''noise'']" "[''[MQC #1 BEFORE] q'']" "[]"] e1 e2 x1 x2 r1 r2 x0
    by simp
  have b: "snd (parse_mq_operations
          ([] @ ''[MQC #4 AFTER] u'' # [''[MQE #1 BEFORE] p''] @ ''[MQC #5 BEFORE] v'' # []))
     = [(4, ''AFTER'', ''u''), (5, ''BEFORE'', ''v'')]"
    using order_preserved[of "''[MQC #4 AFTER] u''" "(''4'', ''AFTER'', '' u'')"
        "''[MQC #5 BEFORE] v''" "(''5'', ''BEFORE'', '' v'')"
        "[]" "[''[MQE #1 BEFORE] p'']" "[]"]
       d1 d2 x3 r3 r4 x0
    by simp
  from a b show ?thesis by simp
qed

text \<open>
  C9, as stated, fails: a tag followed by a single space matches the encoder grammar (the
  rest of the line is the space), and the record it produces has an empty payload, since
  the rest is stripped after the match.
\<close>

theorem blank_rest_counterexample:
  "enc_match ''[MQE #3 AFTER] '' = Some (''3'', ''AFTER'', '' '')
   \<and> parse_mq_operations [''[MQE #3 AFTER] ''] = ([(3, ''AFTER'', '''')], [])"
  by code_simp

text \<open>
  C9, amended. A line that is a tag with nothing after the closing bracket (or only the
  line end) matches neither grammar and produces no record. Every record comes from a
  line whose rest after the tag is not empty, and its payload is that rest stripped: the
  payload is empty exactly when the rest consists of white space only.
\<close>

theorem record_needs_rest:
  "((\<forall>c\<in>set ds. re_digit c) \<and> (ph = ''BEFORE'' \<or> ph = ''AFTER'')
      \<and> (tail = [] \<or> hd tail = CHR 0x0A) \<longrightarrow>
        parse_mq_operations [''[MQE #'' @ ds @ '' '' @ ph @ '']'' @ tail] = ([], [])
      \<and> parse_mq_operations [''[MQC #'' @ ds @ '' '' @ ph @ '']'' @ tail] = ([], []))
   \<and> (r \<in> set (fst (parse_mq_operations lines)) \<union> set (snd (parse_mq_operations lines)) \<longrightarrow>
        (\<exists>line\<in>set lines. \<exists>opn g1 g2 rest end.
            (opn = ''[MQE #'' \<or> opn = ''[MQC #'')
          \<and> line = opn @ g1 @ '' '' @ g2 @ '']'' @ rest @ end
          \<and> rest \<noteq> [] \<and> CHR 0x0A \<notin> set rest \<and> (end = [] \<or> hd end = CHR 0x0A)
          \<and> r = (py_int g1, g2, py_strip rest)
          \<and> (details r = [] \<longleftrightarrow> (\<forall>c\<in>set rest. py_isspace c))))"
proof (intro conjI impI)
  assume a: "(\<forall>c\<in>set ds. re_digit c) \<and> (ph = ''BEFORE'' \<or> ph = ''AFTER'')
      \<and> (tail = [] \<or> hd tail = CHR 0x0A)"
  then have n: "tag_match opn (opn @ ds @ '' '' @ ph @ '']'' @ tail) = None" for opn
    by (intro tag_match_bare) (auto simp: re_dot_def)
  show "parse_mq_operations [''[MQE #'' @ ds @ '' '' @ ph @ '']'' @ tail] = ([], [])"
    using n[of "''[MQE #''"] other_opening(1)[of "ds @ '' '' @ ph @ '']'' @ tail"]
    by (simp add: parse_mq_operations_def parse_line_def enc_match_def dec_match_def)
  show "parse_mq_operations [''[MQC #'' @ ds @ '' '' @ ph @ '']'' @ tail] = ([], [])"
    using n[of "''[MQC #''"] other_opening(2)[of "ds @ '' '' @ ph @ '']'' @ tail"]
    by (simp add: parse_mq_operations_def parse_line_def enc_match_def dec_match_def)
next
  assume "r \<in> set (fst (parse_mq_operations lines)) \<union> set (snd (parse_mq_operations lines))"
  then have "\<exists>line\<in>set lines. \<exists>g. (enc_match line = Some g \<or> dec_match line = Some g)
               \<and> r = record_of g"
    unfolding parse_fst parse_snd set_map set_map_filter by blast
  then obtain line opn g where l: "line \<in> set lines"
    and o: "opn = ''[MQE #'' \<or> opn = ''[MQC #''"
    and m: "tag_match opn line = Some g" and r: "r = record_of g"
    unfolding enc_match_def dec_match_def by blast
  obtain g1 g2 g3 where g: "g = (g1, g2, g3)" by (cases g)
  from tag_match_elim[OF m[unfolded g]] obtain tl where
    t: "line = opn @ g1 @ '' '' @ g2 @ '']'' @ g3 @ tl" "g3 \<noteq> []"
       "\<forall>c\<in>set g3. re_dot c" "tl = [] \<or> \<not> re_dot (hd tl)"
    by blast
  have "CHR 0x0A \<notin> set g3" using t(3) by (auto simp: re_dot_def)
  moreover have "tl = [] \<or> hd tl = CHR 0x0A" using t(4) by (simp add: re_dot_def)
  moreover have "r = (py_int g1, g2, py_strip g3)" using r g by simp
  moreover have "details r = [] \<longleftrightarrow> (\<forall>c\<in>set g3. py_isspace c)"
    using r g by (simp add: py_strip_empty_iff)
  ultimately show "\<exists>line\<in>set lines. \<exists>opn g1 g2 rest end.
            (opn = ''[MQE #'' \<or> opn = ''[MQC #'')
          \<and> line = opn @ g1 @ '' '' @ g2 @ '']'' @ rest @ end
          \<and> rest \<noteq> [] \<and> CHR 0x0A \<notin> set rest \<and> (end = [] \<or> hd end = CHR 0x0A)
          \<and> r = (py_int g1, g2, py_strip rest)
          \<and> (details r = [] \<longleftrightarrow> (\<forall>c\<in>set rest. py_isspace c))"
    using l o t(1,2) by blast
qed

theorem record_needs_rest_witness:
  "parse_mq_operations [''[MQE #'' @ ''3'' @ '' '' @ ''AFTER'' @ '']'' @ [CHR 0x0A]] = ([], [])
   \<and> parse_mq_operations [''[MQC #'' @ ''3'' @ '' '' @ ''AFTER'' @ '']'' @ [CHR 0x0A]] = ([], [])
   \<and> (\<exists>line\<in>set [''[MQE #3 AFTER] x''].
         \<exists>opn g1 g2 rest end.
            (opn = ''[MQE #'' \<or> opn = ''[MQC #'')
          \<and> line = opn @ g1 @ '' '' @ g2 @ '']'' @ rest @ end
          \<and> rest \<noteq> [] \<and> CHR 0x0A \<notin> set rest \<and> (end = [] \<or> hd end = CHR 0x0A)
          \<and> (3, ''AFTER'', ''x'') = (py_int g1, g2, py_strip rest)
          \<and> (details (3, ''AFTER'', ''x'') = [] \<longleftrightarrow> (\<forall>c\<in>set rest. py_isspace c)))"
proof -
  have h1: "(\<forall>c\<in>set ''3''. re_digit c) \<and> (''AFTER'' = ''BEFORE'' \<or> ''AFTER'' = ''AFTER'')
      \<and> ([CHR 0x0A] = [] \<or> hd [CHR 0x0A] = CHR 0x0A)"
    by (simp add: re_digit_def)
  have p: "parse_mq_operations [''[MQE #3 AFTER] x''] = ([(3, ''AFTER'', ''x'')], [])"
    by code_simp
  have h2: "(3, ''AFTER'', ''x'') \<in> set (fst (parse_mq_operations [''[MQE #3 AFTER] x'']))
              \<union> set (snd (parse_mq_operations [''[MQE #3 AFTER] x'']))"
    unfolding p by simp
  from record_needs_rest[of "''3''" "''AFTER''" "[CHR 0x0A]" "(3, ''AFTER'', ''x'')"
      "[''[MQE #3 AFTER] x'']"] h1 h2
  show ?thesis by blast
qed

section \<open>Properties of the comparison\<close>






text \<open>
  C3. The script prints \<open>len(stream) // 2\<close> as the operation count of each stream, and
  the window is \<open>N = min(encoder count, decoder count, 50)\<close>. Never more than \<open>N\<close>
  operations are examined, and when no operation of the window has a mismatch exactly the
  operations 1 to \<open>N\<close> are, the loop ending as Exhausted. With 200 entries on each side and
  no mismatch among the first 50 operations, exactly 50 operations are examined.
\<close>

theorem window_bound:
  "take 3 (printed_lines e d)
     = [EncoderOperations (length e div 2), DecoderOperations (length d div 2), Blank]
   \<and> max_ops e d = min (min (length e div 2) (length d div 2)) 50
   \<and> length (fst (compare e d)) \<le> max_ops e d
   \<and> ((\<forall>i<max_ops e d. \<not> mismatch_at e d i) \<longrightarrow>
          length (fst (compare e d)) = max_ops e d
        \<and> headers (printed_lines e d) = [1..<max_ops e d + 1]
        \<and> snd (compare e d) = Exhausted)
   \<and> (length e = 200 \<and> length d = 200 \<and> (\<forall>i<50. \<not> mismatch_at e d i) \<longrightarrow>
          length (fst (compare e d)) = 50
        \<and> headers (printed_lines e d) = [1..<51])"
proof -
  have x: "length (fst (compare e d)) = max_ops e d
        \<and> headers (printed_lines e d) = [1..<max_ops e d + 1]
        \<and> snd (compare e d) = Exhausted"
    if "\<forall>i<max_ops e d. \<not> mismatch_at e d i"
  proof -
    have c: "compare e d = (map (block e d) [0..<max_ops e d], Exhausted)"
      using that by (rule compare_exhausted)
    have "headers (printed_lines e d) = map Suc [0..<max_ops e d]"
      unfolding headers_printed c fst_conv by (rule headers_blocks)
    then show ?thesis using c by (simp add: map_Suc_upt0)
  qed
  have m: "max_ops e d = 50" if "length e = 200" "length d = 200"
    using that by (simp add: max_ops_def)
  have w: "max_ops e d = min (min (length e div 2) (length d div 2)) 50"
    by (simp add: max_ops_def min.commute)
  have y: "length (fst (compare e d)) = 50 \<and> headers (printed_lines e d) = [1..<51]"
    if "length e = 200 \<and> length d = 200 \<and> (\<forall>i<50. \<not> mismatch_at e d i)"
    using x m that by simp
  show ?thesis
    using printed_head[of e d] w compare_length_le[of e d] x y by blast
qed

theorem window_bound_witness:
  "length (fst (compare
      (concat (map (\<lambda>k. [(int k, ''BEFORE'', ''enc''), (int k, ''AFTER'', ''newState=5 newMPS=0'')]) [1..<101]))
      (concat (map (\<lambda>k. [(int k, ''BEFORE'', ''dec''), (int k, ''AFTER'', ''newState=5 newMPS=0'')]) [1..<101])))) = 50
   \<and> headers (printed_lines
      (concat (map (\<lambda>k. [(int k, ''BEFORE'', ''enc''), (int k, ''AFTER'', ''newState=5 newMPS=0'')]) [1..<101]))
      (concat (map (\<lambda>k. [(int k, ''BEFORE'', ''dec''), (int k, ''AFTER'', ''newState=5 newMPS=0'')]) [1..<101]))) = [1..<51]"
proof -
  let ?E = "concat (map (\<lambda>k. [(int k, ''BEFORE'', ''enc''), (int k, ''AFTER'', ''newState=5 newMPS=0'')]) [1..<101])"
  let ?D = "concat (map (\<lambda>k. [(int k, ''BEFORE'', ''dec''), (int k, ''AFTER'', ''newState=5 newMPS=0'')]) [1..<101])"
  have le: "length ?E = 200" and ld: "length ?D = 200"
    by (simp_all add: length_concat_pairs)
  have se: "snapshot ?E i = Some (''5'', ''0'')" if "i < 50" for i
  proof -
    have "i < length [1..<101::nat]" using that by simp
    then have "details (?E ! (i * 2 + 1)) = ''newState=5 newMPS=0''"
      by (simp only: nth_concat_pairs details.simps)
    moreover have "state_search ''newState=5 newMPS=0'' = Some (''5'', ''0'')"
      by code_simp
    ultimately show ?thesis by (simp only: snapshot_def)
  qed
  have sd: "snapshot ?D i = Some (''5'', ''0'')" if "i < 50" for i
  proof -
    have "i < length [1..<101::nat]" using that by simp
    then have "details (?D ! (i * 2 + 1)) = ''newState=5 newMPS=0''"
      by (simp only: nth_concat_pairs details.simps)
    moreover have "state_search ''newState=5 newMPS=0'' = Some (''5'', ''0'')"
      by code_simp
    ultimately show ?thesis by (simp only: snapshot_def)
  qed
  have h: "\<forall>i<50. \<not> mismatch_at ?E ?D i"
  proof (intro allI impI)
    fix i :: nat assume i: "i < 50"
    show "\<not> mismatch_at ?E ?D i"
      unfolding mismatch_at_def se[OF i] sd[OF i] by simp
  qed
  from window_bound[of ?E ?D] le ld h
  show ?thesis by blast
qed

text \<open>
  C4. When the loop reaches an operation \<open>i\<close> of the window where at least one AFTER
  payload yields no snapshot, the block of that operation holds the header and the four
  payload lines and no match or mismatch line, and the loop goes on: operation \<open>i + 1\<close>,
  when it is in the window, is examined, and it and every later operation reached get the
  verdict of their own snapshots.
\<close>

theorem missing_snapshot_skipped:
  assumes "i < max_ops e d" and "\<forall>j<i. \<not> mismatch_at e d j"
    and "snapshot e i = None \<or> snapshot d i = None"
  shows "i < length (fst (compare e d))
     \<and> fst (compare e d) ! i = shown e d i @ [Blank]
     \<and> (Suc i < max_ops e d \<longrightarrow>
          Suc i < length (fst (compare e d))
        \<and> fst (compare e d) ! Suc i
            = shown e d (Suc i) @ verdict (snapshot e (Suc i)) (snapshot d (Suc i)))
     \<and> (\<forall>k. i < k \<and> k < max_ops e d \<and> (\<forall>j<k. \<not> mismatch_at e d j) \<longrightarrow>
          k < length (fst (compare e d))
        \<and> fst (compare e d) ! k = shown e d k @ verdict (snapshot e k) (snapshot d k))"
proof -
  have v: "verdict (snapshot e i) (snapshot d i) = [Blank]"
    using assms(3) by auto
  have n: "\<not> mismatch_at e d i"
    using assms(3) by (auto simp: mismatch_at_def)
  have s: "\<forall>j<Suc i. \<not> mismatch_at e d j"
    using assms(2) n by (simp add: less_Suc_eq)
  have a: "i < length (fst (compare e d)) \<and> fst (compare e d) ! i = shown e d i @ [Blank]"
    using compare_reached[OF assms(1,2)] v by (simp add: block_def)
  have b: "Suc i < length (fst (compare e d))
        \<and> fst (compare e d) ! Suc i
            = shown e d (Suc i) @ verdict (snapshot e (Suc i)) (snapshot d (Suc i))"
    if "Suc i < max_ops e d"
    using compare_reached[OF that s] by (simp add: block_def)
  have c: "k < length (fst (compare e d))
        \<and> fst (compare e d) ! k = shown e d k @ verdict (snapshot e k) (snapshot d k)"
    if "k < max_ops e d" "\<forall>j<k. \<not> mismatch_at e d j" for k
    using compare_reached[OF that] by (simp add: block_def)
  from a b c show ?thesis by blast
qed

theorem missing_snapshot_skipped_witness:
  "fst (compare
     [(1, ''BEFORE'', ''ctx=0''),
      (1, ''AFTER'', ''no state here''),
      (2, ''BEFORE'', ''ctx=1''),
      (2, ''AFTER'', ''newState=3 newMPS=1'')]
     [(1, ''BEFORE'', ''ctx=0''),
      (1, ''AFTER'', ''newState=5 newMPS=0''),
      (2, ''BEFORE'', ''ctx=1''),
      (2, ''AFTER'', ''newState=4 newMPS=1'')]) ! 0
     = [OperationHeader 1, EncBefore ''ctx=0'', EncAfter ''no state here'',
        DecBefore ''ctx=0'', DecAfter ''newState=5 newMPS=0'', Blank]
   \<and> fst (compare
     [(1, ''BEFORE'', ''ctx=0''),
      (1, ''AFTER'', ''no state here''),
      (2, ''BEFORE'', ''ctx=1''),
      (2, ''AFTER'', ''newState=3 newMPS=1'')]
     [(1, ''BEFORE'', ''ctx=0''),
      (1, ''AFTER'', ''newState=5 newMPS=0''),
      (2, ''BEFORE'', ''ctx=1''),
      (2, ''AFTER'', ''newState=4 newMPS=1'')]) ! Suc 0
     = [OperationHeader 2, EncBefore ''ctx=1'', EncAfter ''newState=3 newMPS=1'',
        DecBefore ''ctx=1'', DecAfter ''newState=4 newMPS=1'',
        StateMismatch (''3'', ''1'') (''4'', ''1''), Blank]"
proof -
  let ?E = "[(1, ''BEFORE'', ''ctx=0''),
      (1, ''AFTER'', ''no state here''),
      (2, ''BEFORE'', ''ctx=1''),
      (2, ''AFTER'', ''newState=3 newMPS=1'')]"
  let ?D = "[(1, ''BEFORE'', ''ctx=0''),
      (1, ''AFTER'', ''newState=5 newMPS=0''),
      (2, ''BEFORE'', ''ctx=1''),
      (2, ''AFTER'', ''newState=4 newMPS=1'')]"
  have h1: "0 < max_ops ?E ?D" by code_simp
  have h2: "\<forall>j<0. \<not> mismatch_at ?E ?D j" by simp
  have h3: "snapshot ?E 0 = None \<or> snapshot ?D 0 = None" by code_simp
  have n: "Suc 0 < max_ops ?E ?D" by code_simp
  have s0: "shown ?E ?D 0 @ [Blank]
      = [OperationHeader 1, EncBefore ''ctx=0'', EncAfter ''no state here'',
        DecBefore ''ctx=0'', DecAfter ''newState=5 newMPS=0'', Blank]"
    by code_simp
  have s1: "shown ?E ?D (Suc 0) @ verdict (snapshot ?E (Suc 0)) (snapshot ?D (Suc 0))
      = [OperationHeader 2, EncBefore ''ctx=1'', EncAfter ''newState=3 newMPS=1'',
        DecBefore ''ctx=1'', DecAfter ''newState=4 newMPS=1'',
        StateMismatch (''3'', ''1'') (''4'', ''1''), Blank]"
    by code_simp
  from missing_snapshot_skipped[OF h1 h2 h3] n
  have "fst (compare ?E ?D) ! 0 = shown ?E ?D 0 @ [Blank]"
    and "fst (compare ?E ?D) ! Suc 0
           = shown ?E ?D (Suc 0) @ verdict (snapshot ?E (Suc 0)) (snapshot ?D (Suc 0))"
    by blast+
  then show ?thesis unfolding s0 s1 by simp
qed



text \<open>
  C8. The comparison never reads the index field: two pairs of streams that agree in the
  phase and payload of every entry, whatever their index fields, give the same blocks, the
  same terminal state and the same printed lines.
\<close>

theorem index_fields_ignored:
  assumes "map snd e = map snd e'" and "map snd d = map snd d'"
  shows "compare e d = compare e' d' \<and> printed_lines e d = printed_lines e' d'"
proof -
  have le: "length e = length e'" and ld: "length d = length d'"
    using assms by (auto dest: map_eq_imp_length_eq)
  have "max_ops e d = max_ops e' d'"
    by (simp add: max_ops_def le ld)
  moreover have "for_range e d ns = for_range e' d' ns" for ns
    by (rule for_range_cong) (rule iteration_details[OF assms])
  ultimately have c: "compare e d = compare e' d'"
    by (simp add: compare_def)
  then show ?thesis by (simp add: printed_lines_def le ld)
qed

theorem index_fields_ignored_witness:
  "compare
     [(1, ''BEFORE'', ''a''),
      (1, ''AFTER'', ''newState=5 newMPS=0''),
      (2, ''BEFORE'', ''b''),
      (2, ''AFTER'', ''newState=6 newMPS=1'')]
     [(1, ''BEFORE'', ''c''),
      (1, ''AFTER'', ''newState=5 newMPS=0''),
      (2, ''BEFORE'', ''d''),
      (2, ''AFTER'', ''newState=7 newMPS=1'')]
   = compare
     [(7, ''BEFORE'', ''a''),
      (9, ''AFTER'', ''newState=5 newMPS=0''),
      (0, ''BEFORE'', ''b''),
      (- 3, ''AFTER'', ''newState=6 newMPS=1'')]
     [(40, ''BEFORE'', ''c''),
      (2, ''AFTER'', ''newState=5 newMPS=0''),
      (2, ''BEFORE'', ''d''),
      (40, ''AFTER'', ''newState=7 newMPS=1'')]"
proof -
  let ?E = "[(1, ''BEFORE'', ''a''),
      (1, ''AFTER'', ''newState=5 newMPS=0''),
      (2, ''BEFORE'', ''b''),
      (2, ''AFTER'', ''newState=6 newMPS=1'')]"
  let ?D = "[(1, ''BEFORE'', ''c''),
      (1, ''AFTER'', ''newState=5 newMPS=0''),
      (2, ''BEFORE'', ''d''),
      (2, ''AFTER'', ''newState=7 newMPS=1'')]"
  let ?E' = "[(7, ''BEFORE'', ''a''),
      (9, ''AFTER'', ''newState=5 newMPS=0''),
      (0, ''BEFORE'', ''b''),
      (- 3, ''AFTER'', ''newState=6 newMPS=1'')]"
  let ?D' = "[(40, ''BEFORE'', ''c''),
      (2, ''AFTER'', ''newState=5 newMPS=0''),
      (2, ''BEFORE'', ''d''),
      (40, ''AFTER'', ''newState=7 newMPS=1'')]"
  have h1: "map snd ?E = map snd ?E'" by simp
  have h2: "map snd ?D = map snd ?D'" by simp
  from index_fields_ignored[OF h1 h2] show ?thesis by simp
qed

end
